theory Spec2Isabelle
  imports Main "HOL-Library.Sublist"
begin

section \<open>Strings as the source uses them\<close>

text \<open>
  A Python \<open>str\<close> is modelled as a \<open>string\<close>; a \<open>char\<close> stands for the code point of
  the same number (the Latin-1 range). Substring containment (\<open>a in b\<close>) is \<open>sublist a b\<close>
  and \<open>b.startswith(a)\<close> is \<open>prefix a b\<close>, both from the library.
\<close>

definition NL :: char where
  "NL = CHR 0x0A"

definition isspace :: "char \<Rightarrow> bool" where
  \<comment> \<open>the white space of \<open>str.strip()\<close> and of \<open>\\s\<close> in a \<open>str\<close> pattern, below code point 256\<close>
  "isspace c =
     (let n = (of_char c :: nat)
      in (9 \<le> n \<and> n \<le> 13) \<or> (28 \<le> n \<and> n \<le> 32) \<or> n = 133 \<or> n = 160)"

definition isdigit :: "char \<Rightarrow> bool" where
  \<comment> \<open>\<open>\\d\<close> in a \<open>str\<close> pattern: the decimal digits, below code point 256\<close>
  "isdigit c = (let n = (of_char c :: nat) in 48 \<le> n \<and> n \<le> 57)"

definition strip :: "string \<Rightarrow> string" where
  \<comment> \<open>\<open>s.strip()\<close>\<close>
  "strip s = rev (dropWhile isspace (rev (dropWhile isspace s)))"

definition strip_chars :: "string \<Rightarrow> string \<Rightarrow> string" where
  \<comment> \<open>\<open>s.strip(chars)\<close>\<close>
  "strip_chars chars s =
     rev (dropWhile (\<lambda>c. c \<in> set chars) (rev (dropWhile (\<lambda>c. c \<in> set chars) s)))"

function str_split :: "string \<Rightarrow> string \<Rightarrow> string list" where
  \<comment> \<open>\<open>s.split(sep)\<close> for a non-empty \<open>sep\<close>: left to right, occurrences do not overlap.
      Python raises ValueError on an empty separator; every call in the source passes a
      non-empty constant, and the model returns the string unsplit there.\<close>
  "str_split sep [] = [[]]"
| "str_split sep (c # cs) =
     (if sep \<noteq> [] \<and> prefix sep (c # cs)
      then [] # str_split sep (drop (length sep) (c # cs))
      else (let r = str_split sep cs in (c # hd r) # tl r))"
  by pat_completeness auto
termination
  by (relation "measure (\<lambda>(sep, s). length s)") (auto simp: neq_Nil_conv)

fun str_join :: "string \<Rightarrow> string list \<Rightarrow> string" where
  \<comment> \<open>\<open>sep.join(xs)\<close>\<close>
  "str_join sep [] = []"
| "str_join sep [x] = x"
| "str_join sep (x # y # ys) = x @ sep @ str_join sep (y # ys)"

function str_nat :: "nat \<Rightarrow> string" where
  \<comment> \<open>\<open>f"{n}"\<close> for a non-negative \<open>int\<close>: its decimal digits\<close>
  "str_nat n =
     (if n < 10 then [char_of (48 + n)] else str_nat (n div 10) @ [char_of (48 + n mod 10)])"
  by pat_completeness auto
termination
  by (relation "measure id") auto

declare str_nat.simps [simp del]

datatype py_error = IndexError | ValueError

definition digits_value :: "string \<Rightarrow> nat" where
  "digits_value ds = foldl (\<lambda>acc c. 10 * acc + (of_char c - 48)) 0 ds"

definition py_int :: "string \<Rightarrow> py_error + nat" where
  \<comment> \<open>\<open>int(s)\<close> on what a \<open>\\d+\<close> group can hold: a non-empty string of decimal digits gives
      its value, anything else raises ValueError. (\<open>int\<close> also reads a sign, underscores and
      surrounding white space, which no caller here can pass; the interpreter's configurable
      limit on the number of digits is not modelled.)\<close>
  "py_int s = (if s \<noteq> [] \<and> list_all isdigit s then Inr (digits_value s) else Inl ValueError)"


section \<open>The document: slides, shapes, paragraphs, runs\<close>

text \<open>
  The presentation object of the document library, as far as the source reads and writes
  it: \<open>prs.slides\<close>, \<open>slide.shapes\<close>, \<open>shape.has_text_frame\<close>,
  \<open>shape.text_frame.paragraphs\<close>, \<open>paragraph.runs\<close>, \<open>run.text\<close>. A run also carries its
  formatting, which the source never touches: \<open>font\<close> stands for all of it, and \<open>0\<close> is the
  formatting of a run fresh from \<open>add_run()\<close>. \<open>run.text\<close> is a plain field: reading it returns
  what was assigned. What the library does to an assigned text on its way into the file
  (such as escaping control characters) is not in the source and is not modelled. A shape
  without a text frame (\<open>has_text_frame\<close> is false) has \<open>text_frame = None\<close>.
\<close>

record run =
  "text" :: string
  font :: nat

record "paragraph" =
  runs :: "run list"

record shape =
  text_frame :: "paragraph list option"

record slide =
  shapes :: "shape list"

record presentation =
  slides :: "slide list"

definition has_text_frame :: "shape \<Rightarrow> bool" where
  "has_text_frame sh = (text_frame sh \<noteq> None)"

type_synonym key = "nat \<times> nat \<times> nat"

section \<open>extract_content\<close>

definition paragraph_text :: "paragraph \<Rightarrow> string" where
  \<comment> \<open>\<open>"".join(run.text for run in paragraph.runs).strip()\<close>\<close>
  "paragraph_text p = strip (concat (map text (runs p)))"

definition format_line :: "nat \<Rightarrow> nat \<Rightarrow> nat \<Rightarrow> string \<Rightarrow> string" where
  \<comment> \<open>\<open>f"{{S{s_idx}:Sh{sh_idx}:P{p_idx}}} || {text}"\<close>\<close>
  "format_line s_idx sh_idx p_idx t =
     ''{S'' @ str_nat s_idx @ '':Sh'' @ str_nat sh_idx @ '':P'' @ str_nat p_idx @ ''} || '' @ t"

definition extract_paragraphs :: "nat \<Rightarrow> nat \<Rightarrow> paragraph list \<Rightarrow> string list" where
  "extract_paragraphs s_idx sh_idx ps =
     concat (map (\<lambda>(p_idx, p).
                    let t = paragraph_text p
                    in if t \<noteq> [] then [format_line s_idx sh_idx p_idx t] else [])
                 (enumerate 0 ps))"

definition extract_shapes :: "nat \<Rightarrow> shape list \<Rightarrow> string list" where
  "extract_shapes s_idx shs =
     concat (map (\<lambda>(sh_idx, sh).
                    case text_frame sh of
                      None \<Rightarrow> []  \<comment> \<open>\<open>if not shape.has_text_frame: continue\<close>\<close>
                    | Some ps \<Rightarrow> extract_paragraphs s_idx sh_idx ps)
                 (enumerate 0 shs))"

definition extract_lines :: "presentation \<Rightarrow> string list" where
  "extract_lines prs =
     concat (map (\<lambda>(s_idx, sl). extract_shapes s_idx (shapes sl)) (enumerate 0 (slides prs)))"

definition extract_text :: "presentation \<Rightarrow> string" where
  \<comment> \<open>\<open>"\\n".join(extracted_lines)\<close>\<close>
  "extract_text prs = str_join [NL] (extract_lines prs)"

definition extract_content :: "string + presentation \<Rightarrow> presentation option \<times> string" where
  \<comment> \<open>The argument is the outcome of \<open>Presentation(pptx_file)\<close>: the document, or the
      message of the exception it raised.\<close>
  "extract_content loaded =
     (case loaded of
        Inl e \<Rightarrow> (None, e)
      | Inr prs \<Rightarrow> (Some prs, extract_text prs))"

section \<open>apply_changes: reading the edit lines\<close>

text \<open>
  \<open>re.search(r"(\\{S\\d+:Sh\\d+:P\\d+\\})\\s*\\|\\|\\s*(.*)", line)\<close> tries each start position from
  the left and returns the first match. At one start position the pattern has a single way
  to match: each \<open>\\d+\<close> is followed by a character that is not a digit and each \<open>\\s*\<close>
  by one that is not white space, so giving back characters never helps, and the final
  \<open>(.*)\<close> takes everything up to the next line feed. \<open>match_at\<close> returns the two groups.
\<close>

definition lit :: "string \<Rightarrow> string \<Rightarrow> string option" where
  "lit l s = (if prefix l s then Some (drop (length l) s) else None)"

definition digits1 :: "string \<Rightarrow> (string \<times> string) option" where
  \<comment> \<open>\<open>\\d+\<close>\<close>
  "digits1 s = (if takeWhile isdigit s = [] then None
                else Some (takeWhile isdigit s, dropWhile isdigit s))"

definition match_at :: "string \<Rightarrow> (string \<times> string) option" where
  "match_at s =
     (case lit ''{S'' s of None \<Rightarrow> None | Some s1 \<Rightarrow>
     (case digits1 s1 of None \<Rightarrow> None | Some (d1, s2) \<Rightarrow>
     (case lit '':Sh'' s2 of None \<Rightarrow> None | Some s3 \<Rightarrow>
     (case digits1 s3 of None \<Rightarrow> None | Some (d2, s4) \<Rightarrow>
     (case lit '':P'' s4 of None \<Rightarrow> None | Some s5 \<Rightarrow>
     (case digits1 s5 of None \<Rightarrow> None | Some (d3, s6) \<Rightarrow>
     (case lit ''}'' s6 of None \<Rightarrow> None | Some s7 \<Rightarrow>
     (case lit ''||'' (dropWhile isspace s7) of None \<Rightarrow> None | Some s8 \<Rightarrow>
        Some (''{S'' @ d1 @ '':Sh'' @ d2 @ '':P'' @ d3 @ ''}'',
              takeWhile (\<lambda>c. c \<noteq> NL) (dropWhile isspace s8))))))))))"

fun re_search :: "string \<Rightarrow> (string \<times> string) option" where
  "re_search [] = match_at []"
| "re_search (c # cs) =
     (case match_at (c # cs) of Some m \<Rightarrow> Some m | None \<Rightarrow> re_search cs)"

definition py_index :: "'a list \<Rightarrow> nat \<Rightarrow> py_error + 'a" where
  \<comment> \<open>\<open>xs[i]\<close> for \<open>i \<ge> 0\<close>\<close>
  "py_index xs i = (if i < length xs then Inr (xs ! i) else Inl IndexError)"

definition parse_uid :: "string \<Rightarrow> py_error + key" where
  \<comment> \<open>the body of the \<open>try\<close>, up to the key\<close>
  "parse_uid uid =
     (let parts = str_split '':'' (strip_chars ''{}'' uid) in
      (case py_index parts 0 of Inl e \<Rightarrow> Inl e | Inr p0 \<Rightarrow>
      (case py_int (drop 1 p0) of Inl e \<Rightarrow> Inl e | Inr s_idx \<Rightarrow>
      (case py_index parts 1 of Inl e \<Rightarrow> Inl e | Inr p1 \<Rightarrow>
      (case py_int (drop 2 p1) of Inl e \<Rightarrow> Inl e | Inr sh_idx \<Rightarrow>
      (case py_index parts 2 of Inl e \<Rightarrow> Inl e | Inr p2 \<Rightarrow>
      (case py_int (drop 1 p2) of Inl e \<Rightarrow> Inl e | Inr p_idx \<Rightarrow>
         Inr (s_idx, sh_idx, p_idx))))))))"

definition parse_line :: "string \<Rightarrow> (key \<times> string) option" where
  \<comment> \<open>one turn of the first loop: the entry the line writes into \<open>updates\<close>, if any\<close>
  "parse_line line =
     (case re_search line of
        None \<Rightarrow> None
      | Some (uid, g2) \<Rightarrow>
          (case parse_uid uid of
             Inl e \<Rightarrow> None
           | Inr k \<Rightarrow> Some (k, strip g2)))"

definition update_line :: "(key \<rightharpoonup> string) \<Rightarrow> string \<Rightarrow> (key \<rightharpoonup> string)" where
  "update_line updates line =
     (case parse_line line of
        None \<Rightarrow> updates
      | Some (k, new_text) \<Rightarrow> updates(k \<mapsto> new_text))"

definition parse_updates :: "string \<Rightarrow> (key \<rightharpoonup> string)" where
  "parse_updates modified_text = foldl update_line Map.empty (str_split [NL] modified_text)"

section \<open>apply_changes: writing the paragraphs\<close>

definition set_run_text :: "run list \<Rightarrow> nat \<Rightarrow> string \<Rightarrow> py_error + run list" where
  \<comment> \<open>\<open>paragraph.runs[i].text = v\<close>\<close>
  "set_run_text rs i v =
     (if i < length rs then Inr (rs[i := (rs ! i)\<lparr>text := v\<rparr>]) else Inl IndexError)"

fun clear_runs :: "nat list \<Rightarrow> run list \<Rightarrow> py_error + run list" where
  \<comment> \<open>\<open>for i in ...: paragraph.runs[i].text = ""\<close>\<close>
  "clear_runs [] rs = Inr rs"
| "clear_runs (i # js) rs =
     (case set_run_text rs i [] of Inl e \<Rightarrow> Inl e | Inr rs' \<Rightarrow> clear_runs js rs')"

definition add_run :: "run list \<Rightarrow> string \<Rightarrow> run list" where
  \<comment> \<open>\<open>paragraph.add_run().text = v\<close>\<close>
  "add_run rs v = rs @ [\<lparr>text = v, font = 0\<rparr>]"

definition patch_paragraph :: "string \<Rightarrow> paragraph \<Rightarrow> py_error + paragraph" where
  "patch_paragraph new_text p =
     (if length (runs p) > 0 then
        (case set_run_text (runs p) 0 new_text of
           Inl e \<Rightarrow> Inl e
         | Inr rs \<Rightarrow>
             (case clear_runs [1..<length (runs p)] rs of
                Inl e \<Rightarrow> Inl e
              | Inr rs' \<Rightarrow> Inr (p\<lparr>runs := rs'\<rparr>)))
      else Inr (p\<lparr>runs := add_run (runs p) new_text\<rparr>))"

fun for_each :: "('a \<Rightarrow> 'e + 'b) \<Rightarrow> 'a list \<Rightarrow> 'e + 'b list" where
  \<comment> \<open>a loop whose body may raise: the first raise ends it\<close>
  "for_each f [] = Inr []"
| "for_each f (x # xs) =
     (case f x of
        Inl e \<Rightarrow> Inl e
      | Inr y \<Rightarrow> (case for_each f xs of Inl e \<Rightarrow> Inl e | Inr ys \<Rightarrow> Inr (y # ys)))"

definition apply_paragraphs ::
  "(key \<rightharpoonup> string) \<Rightarrow> nat \<Rightarrow> nat \<Rightarrow> paragraph list \<Rightarrow> py_error + paragraph list" where
  "apply_paragraphs updates s_idx sh_idx ps =
     for_each (\<lambda>(p_idx, p).
                 case updates (s_idx, sh_idx, p_idx) of
                   None \<Rightarrow> Inr p
                 | Some new_text \<Rightarrow> patch_paragraph new_text p)
              (enumerate 0 ps)"

definition apply_shapes :: "(key \<rightharpoonup> string) \<Rightarrow> nat \<Rightarrow> shape list \<Rightarrow> py_error + shape list" where
  "apply_shapes updates s_idx shs =
     for_each (\<lambda>(sh_idx, sh).
                 case text_frame sh of
                   None \<Rightarrow> Inr sh  \<comment> \<open>\<open>if not shape.has_text_frame: continue\<close>\<close>
                 | Some ps \<Rightarrow>
                     (case apply_paragraphs updates s_idx sh_idx ps of
                        Inl e \<Rightarrow> Inl e
                      | Inr ps' \<Rightarrow> Inr (sh\<lparr>text_frame := Some ps'\<rparr>)))
              (enumerate 0 shs)"

definition apply_updates :: "(key \<rightharpoonup> string) \<Rightarrow> presentation \<Rightarrow> py_error + presentation" where
  "apply_updates updates prs =
     (case for_each (\<lambda>(s_idx, sl).
                       case apply_shapes updates s_idx (shapes sl) of
                         Inl e \<Rightarrow> Inl e
                       | Inr shs' \<Rightarrow> Inr (sl\<lparr>shapes := shs'\<rparr>))
                    (enumerate 0 (slides prs)) of
        Inl e \<Rightarrow> Inl e
      | Inr sls' \<Rightarrow> Inr (prs\<lparr>slides := sls'\<rparr>))"

definition apply_changes :: "presentation \<Rightarrow> string \<Rightarrow> py_error + presentation" where
  "apply_changes prs modified_text = apply_updates (parse_updates modified_text) prs"

definition paragraph_at :: "presentation \<Rightarrow> key \<Rightarrow> paragraph option" where
  \<comment> \<open>the paragraph the second loop visits under a key, if the document has one there\<close>
  "paragraph_at prs k =
     (case k of (s_idx, sh_idx, p_idx) \<Rightarrow>
        if s_idx < length (slides prs) then
          if sh_idx < length (shapes (slides prs ! s_idx)) then
            (case text_frame (shapes (slides prs ! s_idx) ! sh_idx) of
               None \<Rightarrow> None
             | Some ps \<Rightarrow> if p_idx < length ps then Some (ps ! p_idx) else None)
          else None
        else None)"

section \<open>The stream loop of the generator tab\<close>

definition SEPARATOR :: string where
  "SEPARATOR = ''@@@_START_SLIDE_CONTENT_@@@''"

datatype mode = THINKING | WRITING

record parser =
  mode :: mode
  thinking_buffer :: string
  slide_content :: string

definition parser_init :: parser where
  "parser_init = \<lparr>mode = THINKING, thinking_buffer = [], slide_content = []\<rparr>"

definition consume :: "parser \<Rightarrow> string \<Rightarrow> parser" where
  \<comment> \<open>one turn of \<open>for chunk in stream\<close>, \<open>content\<close> being the text of the chunk\<close>
  "consume st content =
     (if mode st = THINKING then
        (let tb = thinking_buffer st @ content in
         if sublist SEPARATOR tb then
           (let parts = str_split SEPARATOR tb in
            st\<lparr>mode := WRITING, thinking_buffer := tb,
               slide_content := (if length parts > 1 then slide_content st @ parts ! 1
                                 else slide_content st)\<rparr>)
         else st\<lparr>thinking_buffer := tb\<rparr>)
      else st\<lparr>slide_content := slide_content st @ content\<rparr>)"

definition consume_all :: "string list \<Rightarrow> parser" where
  "consume_all chunks = foldl consume parser_init chunks"

datatype notice = st_warning string | st_error string

definition valid_lines :: "string \<Rightarrow> string list" where
  \<comment> \<open>\<open>[l for l in lines if "||" in l and "{" in l]\<close>, \<open>lines\<close> being \<open>buffer.split('\\n')\<close>\<close>
  "valid_lines buffer =
     filter (\<lambda>l. sublist ''||'' l \<and> sublist ''{'' l) (str_split [NL] buffer)"

definition fail_safe :: "parser \<Rightarrow> parser \<times> notice option" where
  "fail_safe st =
     (if mode st = THINKING then
        (if sublist ''{S0'' (thinking_buffer st) \<or> sublist ''||'' (thinking_buffer st) then
           (if valid_lines (thinking_buffer st) \<noteq> [] then
              (st\<lparr>slide_content := str_join [NL] (valid_lines (thinking_buffer st))\<rparr>,
               Some (st_warning ''Model ignored the separator, but slide content was recovered.''))
            else (st, Some (st_error ''Model finished but produced no valid slide lines.'')))
         else (st, Some (st_error ''Model finished but did not generate any slide updates.'')))
      else (st, None))"

definition final_payload :: "string list \<Rightarrow> string" where
  \<comment> \<open>\<open>slide_content\<close> when the final processing starts\<close>
  "final_payload chunks = slide_content (fst (fail_safe (consume_all chunks)))"

definition final_notice :: "string list \<Rightarrow> notice option" where
  "final_notice chunks = snd (fail_safe (consume_all chunks))"

definition final_processing :: "presentation \<Rightarrow> string list \<Rightarrow> (py_error + presentation) option" where
  \<comment> \<open>\<open>prs\<close> is the document as \<open>Presentation("temp.pptx")\<close> loads it; \<open>None\<close>: the branch is
      not taken, nothing is patched and nothing is offered for download\<close>
  "final_processing prs chunks =
     (if strip (final_payload chunks) \<noteq> [] then Some (apply_changes prs (final_payload chunks))
      else None)"

section \<open>Auxiliary definitions\<close>

definition patch_result :: "string \<Rightarrow> paragraph \<Rightarrow> paragraph" where
  "patch_result new_text p =
     p\<lparr>runs := (case runs p of
                   [] \<Rightarrow> [\<lparr>text = new_text, font = 0\<rparr>]
                 | r # rs \<Rightarrow> r\<lparr>text := new_text\<rparr> # map (\<lambda>r. r\<lparr>text := []\<rparr>) rs)\<rparr>"

definition edit_paragraph :: "(key \<rightharpoonup> string) \<Rightarrow> key \<Rightarrow> paragraph \<Rightarrow> paragraph" where
  "edit_paragraph updates k p = (case updates k of None \<Rightarrow> p | Some new_text \<Rightarrow> patch_result new_text p)"

definition apply_result :: "(key \<rightharpoonup> string) \<Rightarrow> presentation \<Rightarrow> presentation" where
  "apply_result updates prs =
     prs\<lparr>slides :=
       map (\<lambda>(s_idx, sl). sl\<lparr>shapes :=
         map (\<lambda>(sh_idx, sh).
                case text_frame sh of
                  None \<Rightarrow> sh
                | Some ps \<Rightarrow> sh\<lparr>text_frame :=
                    Some (map (\<lambda>(p_idx, p). edit_paragraph updates (s_idx, sh_idx, p_idx) p)
                              (enumerate 0 ps))\<rparr>)
             (enumerate 0 (shapes sl))\<rparr>)
           (enumerate 0 (slides prs))\<rparr>"




definition slots :: "presentation \<Rightarrow> key list" where
  "slots prs =
     concat (map (\<lambda>s. concat (map (\<lambda>sh. case text_frame (shapes (slides prs ! s) ! sh) of
                                          None \<Rightarrow> []
                                        | Some ps \<Rightarrow> map (\<lambda>p. (s, sh, p)) [0..<length ps])
                                  [0..<length (shapes (slides prs ! s))]))
                 [0..<length (slides prs)])"

definition slot_line :: "presentation \<Rightarrow> key \<Rightarrow> string option" where
  "slot_line prs k =
     (case paragraph_at prs k of
        None \<Rightarrow> None
      | Some p \<Rightarrow>
          if paragraph_text p = [] then None
          else (case k of (s, sh, p_idx) \<Rightarrow> Some (format_line s sh p_idx (paragraph_text p))))"

definition key_before :: "key \<Rightarrow> key \<Rightarrow> bool" where
  "key_before k k' =
     (case k of (s, sh, p) \<Rightarrow> case k' of (s', sh', p') \<Rightarrow>
        s < s' \<or> (s = s' \<and> (sh < sh' \<or> (sh = sh' \<and> p < p'))))"


definition demo_prs :: presentation where
  \<comment> \<open>one slide: a title, a picture (no text frame), a body of three paragraphs\<close>
  "demo_prs =
     \<lparr>slides = [\<lparr>shapes =
        [\<lparr>text_frame = Some [\<lparr>runs = [\<lparr>text = ''Title'', font = 1\<rparr>]\<rparr>]\<rparr>,
         \<lparr>text_frame = None\<rparr>,
         \<lparr>text_frame = Some [\<lparr>runs = [\<lparr>text = '' Hel'', font = 3\<rparr>, \<lparr>text = ''lo '', font = 4\<rparr>]\<rparr>,
                             \<lparr>runs = []\<rparr>,
                             \<lparr>runs = [\<lparr>text = ''Bye'', font = 5\<rparr>]\<rparr>]\<rparr>]\<rparr>]\<rparr>"

section \<open>Splitting and joining\<close>

lemma sublist_append_mono: "sublist xs ys \<Longrightarrow> sublist xs (ys @ zs)"
  by (simp add: sublist_append)

lemma str_split_not_Nil [simp]: "str_split sep s \<noteq> []"
  by (induction sep s rule: str_split.induct) (auto simp: Let_def)

lemma str_join_Cons: "xs \<noteq> [] \<Longrightarrow> str_join sep (x # xs) = x @ sep @ str_join sep xs"
  by (cases xs) simp_all

lemma str_join_Cons_Cons: "str_join sep ((c # x) # xs) = c # str_join sep (x # xs)"
  by (cases xs) simp_all

lemma str_join_split: "str_join sep (str_split sep s) = s"
proof (induction sep s rule: str_split.induct)
  case (1 sep)
  show ?case by simp
next
  case (2 sep c cs)
  show ?case
  proof (cases "sep \<noteq> [] \<and> prefix sep (c # cs)")
    case True
    then have "sep @ drop (length sep) (c # cs) = c # cs"
      by (metis append_eq_conv_conj prefixE)
    with True 2 show ?thesis by (simp add: str_join_Cons)
  next
    case False
    have "hd (str_split sep cs) # tl (str_split sep cs) = str_split sep cs" by simp
    moreover from False have "str_split sep (c # cs) = (c # hd (str_split sep cs)) # tl (str_split sep cs)"
      by (auto simp: Let_def)
    moreover from False 2 have "str_join sep (str_split sep cs) = cs" by blast
    ultimately show ?thesis by (simp add: str_join_Cons_Cons)
  qed
qed

lemma in_str_join_sublist: "l \<in> set xs \<Longrightarrow> sublist l (str_join sep xs)"
proof (induction sep xs rule: str_join.induct)
  case (1 sep)
  then show ?case by simp
next
  case (2 sep x)
  then show ?case by simp
next
  case (3 sep x y ys)
  from 3(2) have "l = x \<or> l \<in> set (y # ys)" by auto
  then show ?case
  proof
    assume "l = x" then show ?thesis by simp
  next
    assume "l \<in> set (y # ys)"
    then have "sublist l (str_join sep (y # ys))" by (rule 3(1))
    then have "sublist l ((x @ sep) @ str_join sep (y # ys))"
      unfolding sublist_append by blast
    then show ?thesis by simp
  qed
qed

lemma in_str_split_sublist: "l \<in> set (str_split sep s) \<Longrightarrow> sublist l s"
  using in_str_join_sublist [of l "str_split sep s" sep] by (simp add: str_join_split)







lemma str_split_no_sep: "\<not> sublist sep s \<Longrightarrow> str_split sep s = [s]"
proof (induction sep s rule: str_split.induct)
  case (1 sep)
  show ?case by simp
next
  case (2 sep c cs)
  from 2(3) have np: "\<not> prefix sep (c # cs)" by (meson prefix_imp_sublist)
  from 2(3) have "\<not> sublist sep cs" by (meson sublist_Cons_right)
  with 2(2) np have "str_split sep cs = [cs]" by simp
  with np show ?case by (simp add: Let_def)
qed

lemma prefix_append_long: "length xs \<le> length ys \<Longrightarrow> prefix xs (ys @ zs) \<longleftrightarrow> prefix xs ys"
  by (auto simp: prefix_append)

lemma str_split_first:
  assumes "sep \<noteq> []" and "\<And>i. i < length x \<Longrightarrow> \<not> prefix sep (drop i (x @ sep))"
  shows "str_split sep (x @ sep @ rest) = x # str_split sep rest"
  using assms(2)
proof (induction x)
  case Nil
  from assms(1) obtain a sep' where sep: "sep = a # sep'" by (cases sep) auto
  have "str_split sep (a # sep' @ rest) = [] # str_split sep (drop (length sep) (a # sep' @ rest))"
    by (simp add: sep)
  then show ?case by (simp add: sep)
next
  case (Cons c x)
  from Cons.prems [of 0] have "\<not> prefix sep (c # x @ sep)" by simp
  then have np: "\<not> prefix sep (c # x @ sep @ rest)"
    using prefix_append_long [of sep "c # x @ sep" rest] by simp
  have "str_split sep (x @ sep @ rest) = x # str_split sep rest"
  proof (rule Cons.IH)
    fix i assume "i < length x"
    with Cons.prems [of "Suc i"] show "\<not> prefix sep (drop i (x @ sep))" by simp
  qed
  with np show ?case by (simp add: Let_def)
qed

lemma first_occurrence:
  assumes "sep \<noteq> []" and "sublist sep s"
  shows "\<exists>x rest. s = x @ sep @ rest \<and> (\<forall>i < length x. \<not> prefix sep (drop i (x @ sep)))"
  using assms(2)
proof (induction s)
  case Nil
  with assms(1) show ?case by simp
next
  case (Cons c cs)
  show ?case
  proof (cases "prefix sep (c # cs)")
    case True
    then obtain rest where "c # cs = [] @ sep @ rest" by (auto simp: prefix_def)
    then show ?thesis by (metis length_0_conv not_less_zero list.size(3))
  next
    case False
    with Cons.prems have "sublist sep cs" by (simp add: sublist_Cons_right)
    then obtain x rest where cs: "cs = x @ sep @ rest"
      and fo: "\<forall>i < length x. \<not> prefix sep (drop i (x @ sep))"
      using Cons.IH by blast
    from False have "\<not> prefix sep (c # x @ sep)"
      using prefix_append_long [of sep "c # x @ sep" rest] by (simp add: cs)
    with fo have "\<forall>i < length (c # x). \<not> prefix sep (drop i ((c # x) @ sep))"
      by (auto simp: less_Suc_eq_0_disj)
    moreover have "c # cs = (c # x) @ sep @ rest" by (simp add: cs)
    ultimately show ?thesis by blast
  qed
qed

lemma str_split_sublist_length:
  assumes "sep \<noteq> []" and "sublist sep s"
  shows "2 \<le> length (str_split sep s)"
proof -
  from first_occurrence [OF assms] obtain x rest where
    "s = x @ sep @ rest" "\<forall>i < length x. \<not> prefix sep (drop i (x @ sep))" by blast
  then have "str_split sep s = x # str_split sep rest"
    using str_split_first [OF assms(1)] by blast
  moreover have "str_split sep rest \<noteq> []" by simp
  ultimately show ?thesis by (cases "str_split sep rest") simp_all
qed

lemma str_split_once_append:
  assumes "sep \<noteq> []" and "sublist sep s" and "length (str_split sep (s @ c)) \<le> 2"
  shows "length (str_split sep s) \<le> 2 \<and> str_split sep (s @ c) ! 1 = str_split sep s ! 1 @ c"
proof -
  from first_occurrence [OF assms(1,2)] obtain x rest where
    s: "s = x @ sep @ rest" and fo: "\<forall>i < length x. \<not> prefix sep (drop i (x @ sep))" by blast
  have 1: "str_split sep s = x # str_split sep rest"
    unfolding s using str_split_first [OF assms(1)] fo by blast
  have 2: "str_split sep (s @ c) = x # str_split sep (rest @ c)"
    using str_split_first [OF assms(1), of x "rest @ c"] fo by (simp add: s)
  from assms(3) 2 have "length (str_split sep (rest @ c)) \<le> 1" by simp
  then have n: "\<not> sublist sep (rest @ c)"
    using str_split_sublist_length [OF assms(1), of "rest @ c"] by auto
  then have "\<not> sublist sep rest" by (meson sublist_append_mono)
  then have "str_split sep rest = [rest]" by (rule str_split_no_sep)
  moreover from n have "str_split sep (rest @ c) = [rest @ c]" by (rule str_split_no_sep)
  ultimately have "str_split sep rest = [rest]" "str_split sep (rest @ c) = [rest @ c]"
    by blast+
  with 1 2 show ?thesis by simp
qed

section \<open>Properties of the stream loop\<close>

lemma consume_all_snoc: "consume_all (cs @ [c]) = consume (consume_all cs) c"
  by (simp add: consume_all_def)

lemma consume_all_thinking:
  "(mode (consume_all chunks) = THINKING \<longleftrightarrow> \<not> sublist SEPARATOR (concat chunks)) \<and>
   (mode (consume_all chunks) = THINKING \<longrightarrow>
      thinking_buffer (consume_all chunks) = concat chunks \<and> slide_content (consume_all chunks) = [])"
proof (induction chunks rule: rev_induct)
  case Nil
  show ?case by (simp add: consume_all_def parser_init_def SEPARATOR_def)
next
  case (snoc c cs)
  show ?case
  proof (cases "mode (consume_all cs)")
    case THINKING
    with snoc show ?thesis
      by (simp add: consume_all_snoc consume_def Let_def)
  next
    case WRITING
    with snoc have "sublist SEPARATOR (concat cs)" by simp
    then have "sublist SEPARATOR (concat (cs @ [c]))" by (simp add: sublist_append_mono)
    with WRITING show ?thesis by (simp add: consume_all_snoc consume_def)
  qed
qed

text \<open>
  Claim C2 (payload accumulation at the transition). The claim is that all text of the
  buffer after the first delimiter becomes payload, also when the delimiter occurs twice.
  The source takes \<open>parts[1]\<close> of \<open>thinking_buffer.split(SEPARATOR)\<close>, which ends at the second
  delimiter: on a fragment that holds the delimiter twice, the text after the second
  delimiter is lost. The comment in the source (process what came after the separator) and
  the \<open>else\<close> branch, which appends whole fragments, say what was meant.
\<close>

theorem C2_payload_cut_at_second_delimiter:
  "slide_content (consume parser_init
       (''plan '' @ SEPARATOR @ ''{S0:Sh0:P0} || A'' @ SEPARATOR @ ''{S0:Sh1:P0} || B''))
     = ''{S0:Sh0:P0} || A''"
  by code_simp

text \<open>
  Claim C3 (chunking invariance). The same slip makes the payload depend on where the
  stream is cut: a second delimiter that arrives in a later fragment is appended to the
  payload together with all that follows it, while the same text in one fragment loses
  everything from the second delimiter on.
\<close>

theorem C3_payload_depends_on_chunking:
  "final_payload [''plan '' @ SEPARATOR @ ''{S0:Sh0:P0} || A'' @ [NL],
                  SEPARATOR @ ''{S0:Sh1:P0} || B'']
     = ''{S0:Sh0:P0} || A'' @ [NL] @ SEPARATOR @ ''{S0:Sh1:P0} || B''
   \<and> final_payload [''plan '' @ SEPARATOR @ ''{S0:Sh0:P0} || A'' @ [NL] @
                     SEPARATOR @ ''{S0:Sh1:P0} || B'']
     = ''{S0:Sh0:P0} || A'' @ [NL]"
  by code_simp

text \<open>
  What does hold: when the delimiter occurs at most once in the stream text (the split of
  the whole text has at most two parts), the payload is the same for every way of cutting
  the text into fragments, also when a cut falls inside the delimiter.
\<close>

lemma consume_all_payload:
  "if sublist SEPARATOR (concat chunks)
   then mode (consume_all chunks) = WRITING \<and>
        (length (str_split SEPARATOR (concat chunks)) \<le> 2 \<longrightarrow>
           slide_content (consume_all chunks) = str_split SEPARATOR (concat chunks) ! 1)
   else mode (consume_all chunks) = THINKING \<and>
        thinking_buffer (consume_all chunks) = concat chunks \<and>
        slide_content (consume_all chunks) = []"
proof (induction chunks rule: rev_induct)
  case Nil
  show ?case by (simp add: consume_all_def parser_init_def SEPARATOR_def)
next
  case (snoc c cs)
  have sep: "SEPARATOR \<noteq> []" by (simp add: SEPARATOR_def)
  show ?case
  proof (cases "sublist SEPARATOR (concat cs)")
    case False
    with snoc have st: "mode (consume_all cs) = THINKING" "thinking_buffer (consume_all cs) = concat cs"
      "slide_content (consume_all cs) = []" by simp_all
    show ?thesis
    proof (cases "sublist SEPARATOR (concat cs @ c)")
      case True
      then have "1 < length (str_split SEPARATOR (concat cs @ c))"
        using str_split_sublist_length [OF sep] by fastforce
      with True st show ?thesis
        by (simp add: consume_all_snoc consume_def Let_def del: str_split.simps)
    next
      case False
      with st show ?thesis
        by (simp add: consume_all_snoc consume_def Let_def del: str_split.simps)
    qed
  next
    case True
    with snoc have m: "mode (consume_all cs) = WRITING"
      and sc: "length (str_split SEPARATOR (concat cs)) \<le> 2 \<Longrightarrow>
           slide_content (consume_all cs) = str_split SEPARATOR (concat cs) ! 1"
      by simp_all
    from True have t: "sublist SEPARATOR (concat (cs @ [c]))" by (simp add: sublist_append_mono)
    have "slide_content (consume_all (cs @ [c])) = str_split SEPARATOR (concat (cs @ [c])) ! 1"
      if "length (str_split SEPARATOR (concat (cs @ [c]))) \<le> 2"
    proof -
      from that have "length (str_split SEPARATOR (concat cs @ c)) \<le> 2" by simp
      from str_split_once_append [OF sep True this] sc
      have "slide_content (consume_all cs) @ c = str_split SEPARATOR (concat cs @ c) ! 1"
        by simp
      with m show ?thesis by (simp add: consume_all_snoc consume_def del: str_split.simps)
    qed
    with m t show ?thesis by (simp add: consume_all_snoc consume_def del: str_split.simps)
  qed
qed

lemma chunking_with_one_delimiter:
  assumes "length (str_split SEPARATOR (concat chunks)) \<le> 2"
  shows "final_payload chunks = final_payload [concat chunks]"
proof (cases "sublist SEPARATOR (concat chunks)")
  case True
  from True assms consume_all_payload [of chunks]
  have a: "mode (consume_all chunks) = WRITING"
    "slide_content (consume_all chunks) = str_split SEPARATOR (concat chunks) ! 1" by simp_all
  from True assms consume_all_payload [of "[concat chunks]"]
  have b: "mode (consume_all [concat chunks]) = WRITING"
    "slide_content (consume_all [concat chunks]) = str_split SEPARATOR (concat chunks) ! 1"
    by simp_all
  from a b show ?thesis by (simp add: final_payload_def fail_safe_def)
next
  case False
  from False consume_all_payload [of chunks]
  have a: "mode (consume_all chunks) = THINKING" "thinking_buffer (consume_all chunks) = concat chunks"
    "slide_content (consume_all chunks) = []" by simp_all
  from False consume_all_payload [of "[concat chunks]"]
  have b: "mode (consume_all [concat chunks]) = THINKING"
    "thinking_buffer (consume_all [concat chunks]) = concat chunks"
    "slide_content (consume_all [concat chunks]) = []" by simp_all
  from a b show ?thesis by (simp add: final_payload_def fail_safe_def)
qed

lemma straddling_delimiter_example:
  "final_payload [''reasoning text @@@_ST'', ''ART_SLIDE_CONTENT_@@@'' @ ''{S0:Sh0:P0} || Hello'']
     = ''{S0:Sh0:P0} || Hello''"
  by code_simp

text \<open>
  Claim C4 (fail-safe recovery). When the delimiter occurs nowhere in the stream, the
  payload is the lines of the whole stream text that contain both \<open>||\<close> and \<open>{\<close>, joined
  by line feeds; when there is no such line an error is reported, the payload stays empty
  and the final processing patches no document, whatever document is on file.
\<close>

theorem C4_fail_safe_recovery:
  assumes "\<not> sublist SEPARATOR (concat chunks)"
  shows "if valid_lines (concat chunks) \<noteq> []
         then final_payload chunks = str_join [NL] (valid_lines (concat chunks))
         else (\<exists>msg. final_notice chunks = Some (st_error msg)) \<and> final_processing prs chunks = None"
proof -
  let ?st = "consume_all chunks"
  from assms consume_all_thinking [of chunks]
  have m: "mode ?st = THINKING" and tb: "thinking_buffer ?st = concat chunks"
    and sc: "slide_content ?st = []" by simp_all
  show ?thesis
  proof (cases "valid_lines (concat chunks) = []")
    case True
    with m tb sc have "final_payload chunks = []"
      by (simp add: final_payload_def fail_safe_def valid_lines_def Let_def)
    moreover from True m tb have "\<exists>msg. final_notice chunks = Some (st_error msg)"
      by (simp add: final_notice_def fail_safe_def valid_lines_def Let_def)
    ultimately show ?thesis using True by (simp add: final_processing_def strip_def)
  next
    case False
    then obtain l where l: "l \<in> set (str_split [NL] (concat chunks))" "sublist ''||'' l"
      by (auto simp: valid_lines_def filter_empty_conv)
    then have "sublist ''||'' (concat chunks)"
      using in_str_split_sublist sublist_order.order_trans by blast
    with False m tb show ?thesis
      by (simp add: final_payload_def fail_safe_def valid_lines_def Let_def)
  qed
qed

text \<open>The stream of the specification's example: one fragment, three lines, no delimiter.\<close>

theorem C4_fail_safe_recovery_witness:
  "\<not> sublist SEPARATOR (concat [''I think we should say hi.'' @ [NL] @ ''{S0:Sh0:P0} || Hi there'' @ [NL] @ ''Done.''])
   \<and> final_payload [''I think we should say hi.'' @ [NL] @ ''{S0:Sh0:P0} || Hi there'' @ [NL] @ ''Done.'']
       = ''{S0:Sh0:P0} || Hi there''"
proof -
  let ?w = "[''I think we should say hi.'' @ [NL] @ ''{S0:Sh0:P0} || Hi there'' @ [NL] @ ''Done.'']"
  have h: "\<not> sublist SEPARATOR (concat ?w)" by code_simp
  have v: "valid_lines (concat ?w) = [''{S0:Sh0:P0} || Hi there'']" by code_simp
  from C4_fail_safe_recovery [OF h] v h show ?thesis by simp
qed

section \<open>Properties of the second loop of apply_changes\<close>

lemma clear_runs_upt:
  "i \<le> length rs \<Longrightarrow>
   clear_runs [i..<length rs] rs = Inr (take i rs @ map (\<lambda>r. r\<lparr>text := []\<rparr>) (drop i rs))"
proof (induction "length rs - i" arbitrary: i rs)
  case 0
  then show ?case by simp
next
  case (Suc n)
  then have lt: "i < length rs" by simp
  let ?rs' = "rs[i := (rs ! i)\<lparr>text := []\<rparr>]"
  have "clear_runs [i..<length rs] rs = clear_runs [Suc i..<length ?rs'] ?rs'"
    using lt by (simp add: upt_conv_Cons set_run_text_def)
  also have "\<dots> = Inr (take (Suc i) ?rs' @ map (\<lambda>r. r\<lparr>text := []\<rparr>) (drop (Suc i) ?rs'))"
    using Suc(2) lt by (intro Suc(1)) simp_all
  also have "take (Suc i) ?rs' = take i rs @ [(rs ! i)\<lparr>text := []\<rparr>]"
    using lt by (simp add: take_Suc_conv_app_nth)
  also have "drop (Suc i) ?rs' = drop (Suc i) rs" by simp
  finally show ?case using lt by (simp add: Cons_nth_drop_Suc [symmetric])
qed

lemma patch_paragraph_Inr: "patch_paragraph new_text p = Inr (patch_result new_text p)"
proof (cases "runs p")
  case Nil
  then show ?thesis by (simp add: patch_paragraph_def patch_result_def add_run_def)
next
  case (Cons r rs)
  let ?rs' = "(r\<lparr>text := new_text\<rparr>) # rs"
  have "clear_runs [1..<length ?rs'] ?rs' = Inr (take 1 ?rs' @ map (\<lambda>r. r\<lparr>text := []\<rparr>) (drop 1 ?rs'))"
    by (rule clear_runs_upt) simp
  with Cons show ?thesis
    by (simp add: patch_paragraph_def patch_result_def set_run_text_def)
qed

lemma for_each_Inr: "(\<And>x. x \<in> set xs \<Longrightarrow> f x = Inr (g x)) \<Longrightarrow> for_each f xs = Inr (map g xs)"
  by (induction xs) simp_all

lemma apply_paragraphs_Inr:
  "apply_paragraphs updates s_idx sh_idx ps =
     Inr (map (\<lambda>(p_idx, p). edit_paragraph updates (s_idx, sh_idx, p_idx) p) (enumerate 0 ps))"
  unfolding apply_paragraphs_def
  by (rule for_each_Inr) (auto simp: edit_paragraph_def patch_paragraph_Inr split: option.splits)

lemma apply_shapes_Inr:
  "apply_shapes updates s_idx shs =
     Inr (map (\<lambda>(sh_idx, sh).
                case text_frame sh of
                  None \<Rightarrow> sh
                | Some ps \<Rightarrow> sh\<lparr>text_frame :=
                    Some (map (\<lambda>(p_idx, p). edit_paragraph updates (s_idx, sh_idx, p_idx) p)
                              (enumerate 0 ps))\<rparr>)
             (enumerate 0 shs))"
  unfolding apply_shapes_def
  by (rule for_each_Inr) (auto simp: apply_paragraphs_Inr split: option.splits)

lemma apply_updates_Inr: "apply_updates updates prs = Inr (apply_result updates prs)"
proof -
  have "for_each (\<lambda>(s_idx, sl).
                       case apply_shapes updates s_idx (shapes sl) of
                         Inl e \<Rightarrow> Inl e
                       | Inr shs' \<Rightarrow> Inr (sl\<lparr>shapes := shs'\<rparr>))
                    (enumerate 0 (slides prs)) = Inr (slides (apply_result updates prs))"
    unfolding apply_result_def
    by (simp, rule for_each_Inr) (auto simp: apply_shapes_Inr)
  then show ?thesis by (simp add: apply_updates_def apply_result_def)
qed

lemma paragraph_at_apply_result:
  "paragraph_at (apply_result updates prs) k = map_option (edit_paragraph updates k) (paragraph_at prs k)"
proof -
  obtain s sh p where k: "k = (s, sh, p)" by (cases k)
  show ?thesis
    unfolding k paragraph_at_def apply_result_def
    by (auto simp: nth_enumerate_eq split: option.splits)
qed



text \<open>
  Claim C7 (paragraphs that are not addressed). A paragraph whose key is not in the edits
  mapping is the same paragraph after patching: the same runs, with the same text and
  formatting.
\<close>

theorem C7_other_paragraphs_unchanged:
  assumes "paragraph_at prs k = Some p" and "parse_updates modified_text k = None"
  shows "\<exists>prs'. apply_changes prs modified_text = Inr prs' \<and> paragraph_at prs' k = Some p"
  using assms
  by (simp add: apply_changes_def apply_updates_Inr paragraph_at_apply_result edit_paragraph_def)

theorem C7_other_paragraphs_unchanged_witness:
  "paragraph_at demo_prs (0, 2, 2) = Some \<lparr>runs = [\<lparr>text = ''Bye'', font = 5\<rparr>]\<rparr>
   \<and> parse_updates ''{S0:Sh2:P0} || New'' (0, 2, 2) = None
   \<and> (\<exists>prs'. apply_changes demo_prs ''{S0:Sh2:P0} || New'' = Inr prs' \<and>
          paragraph_at prs' (0, 2, 2) = Some \<lparr>runs = [\<lparr>text = ''Bye'', font = 5\<rparr>]\<rparr>)"
proof -
  have h1: "paragraph_at demo_prs (0, 2, 2) = Some \<lparr>runs = [\<lparr>text = ''Bye'', font = 5\<rparr>]\<rparr>"
    by code_simp
  have h2: "parse_updates ''{S0:Sh2:P0} || New'' (0, 2, 2) = None"
    by code_simp
  show ?thesis
    by (rule conjI [OF h1 conjI [OF h2 C7_other_paragraphs_unchanged [OF h1 h2]]])
qed




lemma update_line_Some: "parse_line l = Some (k, t) \<Longrightarrow> update_line m l = m(k \<mapsto> t)"
  by (simp add: update_line_def)






section \<open>Properties of the first loop of apply_changes\<close>

lemma not_isdigit_punct [simp]:
  "\<not> isdigit CHR '':''" "\<not> isdigit CHR ''}''" "\<not> isdigit CHR ''{''" "\<not> isdigit CHR ''S''"
  "\<not> isdigit CHR ''P''"
  by (simp_all add: isdigit_def)

lemma not_isspace_bar [simp]: "\<not> isspace CHR ''|''"
  by (simp add: isspace_def)

lemma isspace_blank [simp]: "isspace CHR '' ''"
  by (simp add: isspace_def)

lemma lit_append [simp]: "lit l (l @ s) = Some s"
  by (simp add: lit_def)


























lemma foldl_update_line_other:
  "list_all (\<lambda>l. map_option fst (parse_line l) \<noteq> Some k) ls \<Longrightarrow>
   foldl update_line m ls k = m k"
proof (induction ls arbitrary: m)
  case Nil
  then show ?case by simp
next
  case (Cons l ls)
  then have "foldl update_line (update_line m l) ls k = update_line m l k" by simp
  moreover from Cons.prems have "update_line m l k = m k"
    by (auto simp: update_line_def split: option.splits)
  ultimately show ?case by simp
qed

lemma foldl_update_line_last:
  assumes "i < length ls" "parse_line (ls ! i) = Some (k, t)"
    and "list_all (\<lambda>l. map_option fst (parse_line l) \<noteq> Some k) (drop (Suc i) ls)"
  shows "foldl update_line m ls k = Some t"
proof -
  have "ls = take i ls @ ls ! i # drop (Suc i) ls"
    using assms(1) by (rule id_take_nth_drop)
  then have "foldl update_line m ls k =
      foldl update_line (update_line (foldl update_line m (take i ls)) (ls ! i)) (drop (Suc i) ls) k"
    by (metis foldl_Cons foldl_append)
  also have "\<dots> = update_line (foldl update_line m (take i ls)) (ls ! i) k"
    by (rule foldl_update_line_other [OF assms(3)])
  also have "\<dots> = Some t" by (simp add: update_line_Some [OF assms(2)])
  finally show ?thesis .
qed

lemma concat_text_patch_result: "concat (map text (runs (patch_result new_text p))) = new_text"
  by (cases "runs p") (simp_all add: patch_result_def comp_def)

text \<open>
  Claim C8 (duplicate IDs: the last line wins). The entry of a key is the replacement of
  the last payload line that writes that key. In particular the two-line payload of the
  specification leaves \<open>Second\<close> as the text of paragraph \<open>(0, 0, 0)\<close> of any document that
  has one.
\<close>

theorem C8_last_write_wins:
  "(i < length (str_split [NL] modified_text) \<and>
    parse_line (str_split [NL] modified_text ! i) = Some (k, t) \<and>
    list_all (\<lambda>l. map_option fst (parse_line l) \<noteq> Some k)
             (drop (Suc i) (str_split [NL] modified_text))
      \<longrightarrow> parse_updates modified_text k = Some t)
   \<and> (paragraph_at prs (0, 0, 0) = Some p
      \<longrightarrow> (\<exists>prs' p'. apply_changes prs (''{S0:Sh0:P0} || First'' @ [NL] @ ''{S0:Sh0:P0} || Second'')
                        = Inr prs' \<and>
                     paragraph_at prs' (0, 0, 0) = Some p' \<and>
                     concat (map text (runs p')) = ''Second''))"
proof (intro conjI impI)
  assume "i < length (str_split [NL] modified_text) \<and>
    parse_line (str_split [NL] modified_text ! i) = Some (k, t) \<and>
    list_all (\<lambda>l. map_option fst (parse_line l) \<noteq> Some k)
             (drop (Suc i) (str_split [NL] modified_text))"
  then show "parse_updates modified_text k = Some t"
    unfolding parse_updates_def by (intro foldl_update_line_last) blast+
next
  let ?txt = "''{S0:Sh0:P0} || First'' @ [NL] @ ''{S0:Sh0:P0} || Second''"
  assume p: "paragraph_at prs (0, 0, 0) = Some p"
  have u: "parse_updates ?txt (0, 0, 0) = Some ''Second''" by code_simp
  let ?prs' = "apply_result (parse_updates ?txt) prs"
  have "apply_changes prs ?txt = Inr ?prs'"
    by (simp only: apply_changes_def apply_updates_Inr)
  moreover have "paragraph_at ?prs' (0, 0, 0) = Some (patch_result ''Second'' p)"
    by (simp only: paragraph_at_apply_result p u edit_paragraph_def option.simps)
  moreover have "concat (map text (runs (patch_result ''Second'' p))) = ''Second''"
    by (rule concat_text_patch_result)
  ultimately have "apply_changes prs ?txt = Inr ?prs' \<and>
      paragraph_at ?prs' (0, 0, 0) = Some (patch_result ''Second'' p) \<and>
      concat (map text (runs (patch_result ''Second'' p))) = ''Second''"
    by (intro conjI)
  then show "\<exists>prs' p'. apply_changes prs ?txt = Inr prs' \<and>
                     paragraph_at prs' (0, 0, 0) = Some p' \<and>
                     concat (map text (runs p')) = ''Second''"
    by (intro exI)
qed

text \<open>The payload of the specification, applied to the example document.\<close>

theorem C8_last_write_wins_witness:
  "1 < length (str_split [NL] (''{S0:Sh0:P0} || First'' @ [NL] @ ''{S0:Sh0:P0} || Second''))
   \<and> parse_line (str_split [NL] (''{S0:Sh0:P0} || First'' @ [NL] @ ''{S0:Sh0:P0} || Second'') ! 1)
       = Some ((0, 0, 0), ''Second'')
   \<and> list_all (\<lambda>l. map_option fst (parse_line l) \<noteq> Some (0, 0, 0))
        (drop (Suc 1) (str_split [NL] (''{S0:Sh0:P0} || First'' @ [NL] @ ''{S0:Sh0:P0} || Second'')))
   \<and> parse_updates (''{S0:Sh0:P0} || First'' @ [NL] @ ''{S0:Sh0:P0} || Second'') (0, 0, 0)
       = Some ''Second''
   \<and> paragraph_at demo_prs (0, 0, 0) = Some \<lparr>runs = [\<lparr>text = ''Title'', font = 1\<rparr>]\<rparr>
   \<and> (\<exists>prs' p'. apply_changes demo_prs
                     (''{S0:Sh0:P0} || First'' @ [NL] @ ''{S0:Sh0:P0} || Second'') = Inr prs' \<and>
                   paragraph_at prs' (0, 0, 0) = Some p' \<and>
                   concat (map text (runs p')) = ''Second'')"
proof -
  let ?txt = "''{S0:Sh0:P0} || First'' @ [NL] @ ''{S0:Sh0:P0} || Second''"
  have h1: "1 < length (str_split [NL] ?txt)"
    by code_simp
  have h2: "parse_line (str_split [NL] ?txt ! 1) = Some ((0, 0, 0), ''Second'')"
    by code_simp
  have h3: "list_all (\<lambda>l. map_option fst (parse_line l) \<noteq> Some (0, 0, 0))
              (drop (Suc 1) (str_split [NL] ?txt))"
    by code_simp
  have h4: "paragraph_at demo_prs (0, 0, 0) = Some \<lparr>runs = [\<lparr>text = ''Title'', font = 1\<rparr>]\<rparr>"
    by code_simp
  note T = C8_last_write_wins [of 1 ?txt "(0, 0, 0)" "''Second''" demo_prs
      "\<lparr>runs = [\<lparr>text = ''Title'', font = 1\<rparr>]\<rparr>"]
  have c1: "parse_updates ?txt (0, 0, 0) = Some ''Second''"
    by (rule T [THEN conjunct1, THEN mp]) (intro conjI h1 h2 h3)
  have c2: "\<exists>prs' p'. apply_changes demo_prs ?txt = Inr prs' \<and>
              paragraph_at prs' (0, 0, 0) = Some p' \<and> concat (map text (runs p')) = ''Second''"
    by (rule T [THEN conjunct2, THEN mp]) (rule h4)
  show ?thesis by (intro conjI h1 h2 h3 h4 c1 c2)
qed

section \<open>Properties of extract_content\<close>

lemma map_enumerate_upt:
  "map (\<lambda>(i, x). f i x) (enumerate 0 xs) = map (\<lambda>i. f i (xs ! i)) [0..<length xs]"
  by (rule nth_equalityI) (simp_all add: nth_enumerate_eq)

lemma map_filter_append:
  "List.map_filter f (xs @ ys) = List.map_filter f xs @ List.map_filter f ys"
  by (simp add: map_filter_def)

lemma map_filter_concat: "List.map_filter f (concat xss) = concat (map (List.map_filter f) xss)"
  by (induction xss) (simp_all add: map_filter_append map_filter_simps)

lemma map_filter_as_concat:
  "List.map_filter f xs = concat (map (\<lambda>x. case f x of None \<Rightarrow> [] | Some y \<Rightarrow> [y]) xs)"
  by (induction xs) (simp_all add: map_filter_simps split: option.splits)

lemma concat_map_upt_cong:
  "(\<And>i. i < n \<Longrightarrow> f i = g i) \<Longrightarrow> concat (map f [0..<n]) = concat (map g [0..<n])"
  by (rule arg_cong [where f = concat], rule map_cong [OF refl]) simp

lemma extract_paragraphs_slots:
  assumes "s < length (slides prs)" "sh < length (shapes (slides prs ! s))"
    and "text_frame (shapes (slides prs ! s) ! sh) = Some ps"
  shows "extract_paragraphs s sh ps =
         List.map_filter (slot_line prs) (map (\<lambda>p. (s, sh, p)) [0..<length ps])"
proof -
  have "extract_paragraphs s sh ps =
        concat (map (\<lambda>p. let t = paragraph_text (ps ! p)
                          in if t \<noteq> [] then [format_line s sh p t] else []) [0..<length ps])"
    by (simp only: extract_paragraphs_def map_enumerate_upt)
  also have "\<dots> = concat (map (\<lambda>p. case slot_line prs (s, sh, p) of None \<Rightarrow> [] | Some y \<Rightarrow> [y])
                             [0..<length ps])"
    by (rule concat_map_upt_cong) (use assms in \<open>simp add: slot_line_def paragraph_at_def\<close>)
  also have "\<dots> = List.map_filter (slot_line prs) (map (\<lambda>p. (s, sh, p)) [0..<length ps])"
    by (simp add: map_filter_as_concat comp_def)
  finally show ?thesis .
qed

lemma extract_shapes_slots:
  assumes "s < length (slides prs)"
  shows "extract_shapes s (shapes (slides prs ! s)) =
         List.map_filter (slot_line prs)
           (concat (map (\<lambda>sh. case text_frame (shapes (slides prs ! s) ! sh) of
                                  None \<Rightarrow> []
                                | Some ps \<Rightarrow> map (\<lambda>p. (s, sh, p)) [0..<length ps])
                        [0..<length (shapes (slides prs ! s))]))"
proof -
  let ?shs = "shapes (slides prs ! s)"
  have "extract_shapes s ?shs =
        concat (map (\<lambda>sh. case text_frame (?shs ! sh) of None \<Rightarrow> []
                           | Some ps \<Rightarrow> extract_paragraphs s sh ps) [0..<length ?shs])"
    by (simp only: extract_shapes_def map_enumerate_upt)
  also have "\<dots> = concat (map (\<lambda>sh. List.map_filter (slot_line prs)
                    (case text_frame (?shs ! sh) of None \<Rightarrow> []
                     | Some ps \<Rightarrow> map (\<lambda>p. (s, sh, p)) [0..<length ps])) [0..<length ?shs])"
  proof (rule concat_map_upt_cong)
    fix sh assume "sh < length ?shs"
    from extract_paragraphs_slots [OF assms this]
    show "(case text_frame (?shs ! sh) of None \<Rightarrow> [] | Some ps \<Rightarrow> extract_paragraphs s sh ps) =
        List.map_filter (slot_line prs)
          (case text_frame (?shs ! sh) of None \<Rightarrow> []
           | Some ps \<Rightarrow> map (\<lambda>p. (s, sh, p)) [0..<length ps])"
      by (cases "text_frame (?shs ! sh)") (simp_all add: map_filter_simps)
  qed
  also have "\<dots> = List.map_filter (slot_line prs)
           (concat (map (\<lambda>sh. case text_frame (?shs ! sh) of
                                  None \<Rightarrow> []
                                | Some ps \<Rightarrow> map (\<lambda>p. (s, sh, p)) [0..<length ps])
                        [0..<length ?shs]))"
    by (simp only: map_filter_concat map_map comp_def)
  finally show ?thesis .
qed

lemma extract_lines_slots: "extract_lines prs = List.map_filter (slot_line prs) (slots prs)"
proof -
  have "extract_lines prs =
        concat (map (\<lambda>s. extract_shapes s (shapes (slides prs ! s))) [0..<length (slides prs)])"
    by (simp only: extract_lines_def map_enumerate_upt)
  also have "\<dots> = concat (map (\<lambda>s. List.map_filter (slot_line prs)
           (concat (map (\<lambda>sh. case text_frame (shapes (slides prs ! s) ! sh) of
                                  None \<Rightarrow> []
                                | Some ps \<Rightarrow> map (\<lambda>p. (s, sh, p)) [0..<length ps])
                        [0..<length (shapes (slides prs ! s))]))) [0..<length (slides prs)])"
    by (rule concat_map_upt_cong) (rule extract_shapes_slots)
  also have "\<dots> = List.map_filter (slot_line prs) (slots prs)"
    by (simp only: slots_def map_filter_concat map_map comp_def)
  finally show ?thesis .
qed

lemma in_concat_map_upt: "i < n \<Longrightarrow> x \<in> set (f i) \<Longrightarrow> x \<in> set (concat (map f [0..<n]))"
  by auto

lemma in_slots_iff:
  "(s, sh, p) \<in> set (slots prs) \<longleftrightarrow>
     s < length (slides prs) \<and> sh < length (shapes (slides prs ! s)) \<and>
     (\<exists>ps. text_frame (shapes (slides prs ! s) ! sh) = Some ps \<and> p < length ps)"
proof
  assume "(s, sh, p) \<in> set (slots prs)"
  then show "s < length (slides prs) \<and> sh < length (shapes (slides prs ! s)) \<and>
     (\<exists>ps. text_frame (shapes (slides prs ! s) ! sh) = Some ps \<and> p < length ps)"
    by (auto simp: slots_def option.case_eq_if split: if_splits)
next
  assume a: "s < length (slides prs) \<and> sh < length (shapes (slides prs ! s)) \<and>
     (\<exists>ps. text_frame (shapes (slides prs ! s) ! sh) = Some ps \<and> p < length ps)"
  then obtain ps where ps: "text_frame (shapes (slides prs ! s) ! sh) = Some ps" "p < length ps"
    by blast
  then have m1: "(s, sh, p) \<in> set (case text_frame (shapes (slides prs ! s) ! sh) of
                                  None \<Rightarrow> []
                                | Some ps \<Rightarrow> map (\<lambda>p. (s, sh, p)) [0..<length ps])"
    by simp
  have m2: "(s, sh, p) \<in> set (concat (map (\<lambda>sh. case text_frame (shapes (slides prs ! s) ! sh) of
                                          None \<Rightarrow> []
                                        | Some ps \<Rightarrow> map (\<lambda>p. (s, sh, p)) [0..<length ps])
                                  [0..<length (shapes (slides prs ! s))]))"
    by (rule in_concat_map_upt [of sh]) (use a m1 in simp_all)
  show "(s, sh, p) \<in> set (slots prs)"
    unfolding slots_def by (rule in_concat_map_upt [of s]) (use a m2 in simp_all)
qed

lemma set_slots: "set (slots prs) = {k. paragraph_at prs k \<noteq> None}"
proof (rule set_eqI)
  fix k :: key
  obtain s sh p where k: "k = (s, sh, p)" by (cases k)
  show "k \<in> set (slots prs) \<longleftrightarrow> k \<in> {k. paragraph_at prs k \<noteq> None}"
    unfolding k in_slots_iff
    by (auto simp: paragraph_at_def split: option.splits)
qed

lemma sorted_wrt_concat_upt:
  assumes "\<And>i. i < n \<Longrightarrow> sorted_wrt R (f i)"
    and "\<And>i j x y. i < j \<Longrightarrow> j < n \<Longrightarrow> x \<in> set (f i) \<Longrightarrow> y \<in> set (f j) \<Longrightarrow> R x y"
  shows "sorted_wrt R (concat (map f [0..<n]))"
  using assms
proof (induction n)
  case 0
  show ?case by simp
next
  case (Suc n)
  have "sorted_wrt R (concat (map f [0..<n]))"
    by (rule Suc.IH) (simp_all add: Suc.prems)
  moreover have "sorted_wrt R (f n)" by (simp add: Suc.prems)
  moreover have "R x y" if "x \<in> set (concat (map f [0..<n]))" "y \<in> set (f n)" for x y
    using that Suc.prems(2) by auto
  ultimately show ?case by (simp add: sorted_wrt_append)
qed

lemma sorted_slots: "sorted_wrt key_before (slots prs)"
  unfolding slots_def
proof (rule sorted_wrt_concat_upt)
  fix s assume "s < length (slides prs)"
  show "sorted_wrt key_before
          (concat (map (\<lambda>sh. case text_frame (shapes (slides prs ! s) ! sh) of
                                  None \<Rightarrow> []
                                | Some ps \<Rightarrow> map (\<lambda>p. (s, sh, p)) [0..<length ps])
                        [0..<length (shapes (slides prs ! s))]))"
  proof (rule sorted_wrt_concat_upt)
    fix sh
    show "sorted_wrt key_before
            (case text_frame (shapes (slides prs ! s) ! sh) of None \<Rightarrow> []
             | Some ps \<Rightarrow> map (\<lambda>p. (s, sh, p)) [0..<length ps])"
      by (cases "text_frame (shapes (slides prs ! s) ! sh)")
         (simp_all add: sorted_wrt_map key_before_def sorted_wrt_upt)
  next
    fix i j x y
    assume "i < j"
      and "x \<in> set (case text_frame (shapes (slides prs ! s) ! i) of None \<Rightarrow> []
             | Some ps \<Rightarrow> map (\<lambda>p. (s, i, p)) [0..<length ps])"
      and "y \<in> set (case text_frame (shapes (slides prs ! s) ! j) of None \<Rightarrow> []
             | Some ps \<Rightarrow> map (\<lambda>p. (s, j, p)) [0..<length ps])"
    then show "key_before x y"
      by (auto simp: key_before_def split: option.splits)
  qed
next
  fix i j x y
  assume "i < j"
    and "x \<in> set (concat (map (\<lambda>sh. case text_frame (shapes (slides prs ! i) ! sh) of
                                  None \<Rightarrow> []
                                | Some ps \<Rightarrow> map (\<lambda>p. (i, sh, p)) [0..<length ps])
                        [0..<length (shapes (slides prs ! i))]))"
    and "y \<in> set (concat (map (\<lambda>sh. case text_frame (shapes (slides prs ! j) ! sh) of
                                  None \<Rightarrow> []
                                | Some ps \<Rightarrow> map (\<lambda>p. (j, sh, p)) [0..<length ps])
                        [0..<length (shapes (slides prs ! j))]))"
  then show "key_before x y"
    by (auto simp: key_before_def split: option.splits)
qed

text \<open>
  Claim C5 (extractor contract). \<open>slots\<close> lists every position \<open>(slide, shape, paragraph)\<close>
  that holds a paragraph, counting shapes without a text frame and paragraphs without text
  in the indices, in document order (strictly increasing, slide first, then shape, then
  paragraph). The extracted lines are, in that order, the line
  \<open>{S<slide>:Sh<shape>:P<paragraph>} || <trimmed text>\<close> of each position whose paragraph has a
  non-empty trimmed text, and nothing else; the text returned is these lines joined by line
  feeds. (A line here is an element of \<open>extracted_lines\<close>.)
\<close>

theorem C5_extractor_contract:
  "extract_lines prs = List.map_filter (slot_line prs) (slots prs)
   \<and> set (slots prs) = {k. paragraph_at prs k \<noteq> None}
   \<and> sorted_wrt key_before (slots prs)
   \<and> extract_content (Inr prs) = (Some prs, str_join [NL] (extract_lines prs))"
  by (simp add: extract_lines_slots set_slots sorted_slots extract_content_def extract_text_def)

text \<open>
  The example document: the picture at shape index 1 and the empty paragraph at index 1 of
  the body give no line, and the indices of what follows them are not shifted.
\<close>

theorem C5_extractor_contract_witness:
  "extract_lines demo_prs = [''{S0:Sh0:P0} || Title'', ''{S0:Sh2:P0} || Hello'', ''{S0:Sh2:P2} || Bye'']
   \<and> slots demo_prs = [(0, 0, 0), (0, 2, 0), (0, 2, 1), (0, 2, 2)]"
proof -
  have s: "slots demo_prs = [(0, 0, 0), (0, 2, 0), (0, 2, 1), (0, 2, 2)]"
    by code_simp
  have "List.map_filter (slot_line demo_prs) [(0, 0, 0), (0, 2, 0), (0, 2, 1), (0, 2, 2)] =
        [''{S0:Sh0:P0} || Title'', ''{S0:Sh2:P0} || Hello'', ''{S0:Sh2:P2} || Bye'']"
    by code_simp
  with C5_extractor_contract [of demo_prs] s show ?thesis by (simp only:)
qed

section \<open>Extracting, patching with the extracted text, extracting again\<close>





















end
